theory Spec2Isabelle
  imports Main "HOL-Library.AList"
begin

section \<open>Exceptions, renderers and the log\<close>

text \<open>
  Python exceptions are values. \<open>NotImplementedError\<close> is the one exception the module
  raises itself (at the end of \<open>render_text\<close>) and handles by name (in
  \<open>_run_queued_item\<close>); every other exception a plugin may raise is \<open>OtherError\<close> with
  its message.
\<close>

datatype py_exception = NotImplementedError | OtherError string

text \<open>
  A renderer is a plugin object of \<open>RendererManager.RENDERERS\<close>. The module calls
  \<open>renderer.is_enabled(filename, lang)\<close> and \<open>renderer.render(text, filename=filename)\<close>,
  either of which may raise, and reads \<open>renderer.__class__.__name__\<close> for the log.
  The filename is \<open>string option\<close> because the editor hands out \<open>None\<close> for a buffer
  that has no file. The two calls are taken to depend on their arguments only.
\<close>

record Renderer =
  class_name :: string
  is_enabled :: "string option \<Rightarrow> string \<Rightarrow> py_exception + bool"
  render :: "string \<Rightarrow> string option \<Rightarrow> py_exception + string"

text \<open>
  Modelled from the spec: the module \<open>log\<close> is imported, not part of this file. The spec
  has a failure logged with the renderer's identity and the message, so
  \<open>log.exception(msg)\<close> records the message together with the exception being handled
  and does not raise. The log is the list of records written so far, oldest first.
\<close>

datatype log_record = LogException string py_exception

section \<open>Dispatch: \<open>RendererManager.render_text\<close>\<close>

text \<open>
  \<^verbatim>\<open>
    for renderer in cls.RENDERERS:
        try:
            if renderer.is_enabled(filename, lang):
                return renderer.render(text, filename=filename)
        except:
            log.exception('Exception occured while rendering using %s', renderer.__class__.__name__)
    raise NotImplementedError()
  \<close>
  The \<open>try\<close> block holds both calls, and the bare \<open>except\<close> takes every exception.
\<close>

definition rendering_failed :: "Renderer \<Rightarrow> py_exception \<Rightarrow> log_record" where
  "rendering_failed renderer e =
     LogException (''Exception occured while rendering using '' @ class_name renderer) e"

fun render_text ::
  "Renderer list \<Rightarrow> string option \<Rightarrow> string \<Rightarrow> string \<Rightarrow> log_record list
     \<Rightarrow> (py_exception + string) \<times> log_record list" where
  "render_text [] filename lang txt lg = (Inl NotImplementedError, lg)"
| "render_text (renderer # rest) filename lang txt lg =
     (case is_enabled renderer filename lang of
        Inl e \<Rightarrow> render_text rest filename lang txt (lg @ [rendering_failed renderer e])
      | Inr enabled \<Rightarrow>
          if enabled then
            (case render renderer txt filename of
               Inl e \<Rightarrow> render_text rest filename lang txt (lg @ [rendering_failed renderer e])
             | Inr html \<Rightarrow> (Inr html, lg))
          else render_text rest filename lang txt lg)"

section \<open>Paths: \<open>os.path.basename\<close> and \<open>os.path.dirname\<close>\<close>

text \<open>
  The standard library's POSIX implementation (\<open>posixpath\<close>):
  \<^verbatim>\<open>
    def basename(p):
        i = p.rfind('/') + 1
        return p[i:]
    def dirname(p):
        i = p.rfind('/') + 1
        head = p[:i]
        if head and head != '/'*len(head):
            head = head.rstrip('/')
        return head
  \<close>
\<close>

definition basename :: "string \<Rightarrow> string" where
  "basename p = rev (takeWhile (\<lambda>c. c \<noteq> CHR ''/'') (rev p))"

definition dirname :: "string \<Rightarrow> string" where
  "dirname p =
     (let head = rev (dropWhile (\<lambda>c. c \<noteq> CHR ''/'') (rev p))
      in if head \<noteq> [] \<and> head \<noteq> replicate (length head) CHR ''/''
         then rev (dropWhile (\<lambda>c. c = CHR ''/'') (rev head))
         else head)"

section \<open>The coalescing queue: \<open>WorkerQueueItem\<close> and \<open>RendererWorker\<close>\<close>

record WorkerQueueItem =
  item_timestamp :: int
  item_fullpath :: string
  item_lang :: string
  item_text :: string

text \<open>
  \<open>WorkerQueueItem.__init__\<close>: \<open>self.fullpath = fullpath or 'untitled'\<close>, so both \<open>None\<close>
  and the empty string become \<open>'untitled'\<close>.
\<close>

definition WorkerQueueItem_init ::
  "int \<Rightarrow> string option \<Rightarrow> string \<Rightarrow> string \<Rightarrow> WorkerQueueItem" where
  "WorkerQueueItem_init timestamp fullpath lang txt =
     \<lparr>item_timestamp = timestamp,
      item_fullpath = (case fullpath of
                         None \<Rightarrow> ''untitled''
                       | Some p \<Rightarrow> if p = [] then ''untitled'' else p),
      item_lang = lang,
      item_text = txt\<rparr>"

text \<open>
  Modelled from the spec: \<open>RenderedMarkupCacheEntry\<close> and \<open>RenderedMarkupCache\<close> are
  imported from the module \<open>Common\<close>. The spec describes the entry as
  \<open>{filename, dirname, html_part}\<close> and the cache as a key/value store with
  \<open>set_entry(document_id, entry)\<close> and \<open>exists(document_id)\<close>, keyed by document identity.
\<close>

record RenderedMarkupCacheEntry =
  entry_filename :: string
  entry_dirname :: string
  entry_html_part :: string

type_synonym RenderedMarkupCache = "int \<rightharpoonup> RenderedMarkupCacheEntry"

text \<open>
  Modelled from the spec: \<open>set_entry\<close> stores the entry under the key, replacing an
  earlier one.
\<close>

definition set_entry ::
  "int \<Rightarrow> RenderedMarkupCacheEntry \<Rightarrow> RenderedMarkupCache \<Rightarrow> RenderedMarkupCache" where
  "set_entry buffer_id entry c = c(buffer_id \<mapsto> entry)"

text \<open>
  Modelled from the spec: \<open>exists\<close> tells whether the key has an entry.
\<close>

definition exists_entry :: "int \<Rightarrow> RenderedMarkupCache \<Rightarrow> bool" where
  "exists_entry buffer_id c = (c buffer_id \<noteq> None)"

text \<open>
  The mutable state the module works on: the worker's dict \<open>que\<close> and flag \<open>stopping\<close>,
  the cache singleton and the log. The dict is an association list whose keys are kept
  distinct by \<open>AList.update\<close> (\<open>self.que[buffer_id] = item\<close> replaces the value of a key
  that is present and adds the key otherwise); \<open>self.que.items()\<close> is that list
  (a copy, in Python 2) and \<open>self.que.clear()\<close> leaves \<open>[]\<close>. Python 2 gives no order
  to \<open>items()\<close>; the list order stands for whichever order the dict has.
\<close>

record state =
  que :: "(int \<times> WorkerQueueItem) list"
  stopping :: bool
  cache :: RenderedMarkupCache
  logged :: "log_record list"

text \<open>
  \<open>RendererWorker._run_queued_item\<close>, first the \<open>try\<close> block, then the two handlers:
  \<^verbatim>\<open>
    try:
        filename = os.path.basename(item.fullpath)
        dirname = os.path.dirname(item.fullpath)
        html_part = RendererManager.render_text(filename, item.lang, item.text)
        entry = RenderedMarkupCacheEntry(filename=filename, dirname=dirname, html_part=html_part)
        RenderedMarkupCache.instance().set_entry(buffer_id, entry)
    except NotImplementedError:
        pass
    except:
        log.exception("")
  \<close>
  What the block wrote to the log before it raised stays written.
\<close>

definition run_queued_item_try ::
  "Renderer list \<Rightarrow> int \<Rightarrow> WorkerQueueItem \<Rightarrow> state \<Rightarrow> (py_exception + unit) \<times> state" where
  "run_queued_item_try rs buffer_id item s =
     (let filename = basename (item_fullpath item);
          dirname' = dirname (item_fullpath item);
          (r, lg) = render_text rs (Some filename) (item_lang item) (item_text item) (logged s);
          s1 = s\<lparr>logged := lg\<rparr>
      in case r of
           Inl e \<Rightarrow> (Inl e, s1)
         | Inr html_part \<Rightarrow>
             let entry = \<lparr>entry_filename = filename, entry_dirname = dirname',
                          entry_html_part = html_part\<rparr>
             in (Inr (), s1\<lparr>cache := set_entry buffer_id entry (cache s1)\<rparr>))"

definition run_queued_item ::
  "Renderer list \<Rightarrow> int \<Rightarrow> WorkerQueueItem \<Rightarrow> state \<Rightarrow> (py_exception + unit) \<times> state" where
  "run_queued_item rs buffer_id item s =
     (case run_queued_item_try rs buffer_id item s of
        (Inr u, s') \<Rightarrow> (Inr u, s')
      | (Inl NotImplementedError, s') \<Rightarrow> (Inr (), s')
      | (Inl e, s') \<Rightarrow> (Inr (), s'\<lparr>logged := logged s' @ [LogException [] e]\<rparr>))"

text \<open>
  \<open>RendererWorker.queue\<close>. The non-immediate branch runs under the lock, so it is one
  atomic step; \<open>self.cond.notify()\<close> changes no data and is the wake-up the worker
  loop below receives as an event.
  \<^verbatim>\<open>
    item = WorkerQueueItem(fullpath=fullpath, lang=lang, text=text)
    if immediate:  # Render in the main thread
        self._run_queued_item(buffer_id, item)
    else:
        with self.cond:
            self.que[buffer_id] = item
            self.cond.notify()
  \<close>
\<close>

definition queue ::
  "Renderer list \<Rightarrow> int \<Rightarrow> string option \<Rightarrow> string \<Rightarrow> string \<Rightarrow> bool \<Rightarrow> state
     \<Rightarrow> (py_exception + unit) \<times> state" where
  "queue rs buffer_id fullpath lang txt immediate s =
     (let item = WorkerQueueItem_init 0 fullpath lang txt
      in if immediate then run_queued_item rs buffer_id item s
         else (Inr (), s\<lparr>que := AList.update buffer_id item (que s)\<rparr>))"

text \<open>
  The \<open>for\<close> loop of \<open>run\<close> over a drained batch; an exception leaving
  \<open>_run_queued_item\<close> would end the loop there.
  \<^verbatim>\<open>
    for buffer_id, item in items:
        self._run_queued_item(buffer_id, item)
  \<close>
\<close>

fun run_items ::
  "Renderer list \<Rightarrow> (int \<times> WorkerQueueItem) list \<Rightarrow> state \<Rightarrow> (py_exception + unit) \<times> state" where
  "run_items rs [] s = (Inr (), s)"
| "run_items rs ((buffer_id, item) # items) s =
     (case run_queued_item rs buffer_id item s of
        (Inl e, s') \<Rightarrow> (Inl e, s')
      | (Inr u, s') \<Rightarrow> run_items rs items s')"

text \<open>
  The cache is code outside this file, and the second handler of \<open>_run_queued_item\<close>
  is there for whatever the \<open>try\<close> block raises besides the \<open>NotImplementedError\<close> of the
  dispatch. The following is the same method, and the same \<open>for\<close> loop, with the cache's
  \<open>set_entry\<close> taken as a parameter that may raise; an exception of \<open>set_entry\<close> leaves
  the cache as it was. At \<open>total_set_entry\<close>, the store of the spec, they are
  \<open>run_queued_item\<close> and \<open>run_items\<close>.
\<close>

type_synonym set_entry_call =
  "int \<Rightarrow> RenderedMarkupCacheEntry \<Rightarrow> RenderedMarkupCache \<Rightarrow> py_exception + RenderedMarkupCache"

definition total_set_entry :: set_entry_call where
  "total_set_entry buffer_id entry c = Inr (set_entry buffer_id entry c)"

definition run_queued_item_try_with ::
  "set_entry_call \<Rightarrow> Renderer list \<Rightarrow> int \<Rightarrow> WorkerQueueItem \<Rightarrow> state
     \<Rightarrow> (py_exception + unit) \<times> state" where
  "run_queued_item_try_with cache_set_entry rs buffer_id item s =
     (let filename = basename (item_fullpath item);
          dirname' = dirname (item_fullpath item);
          (r, lg) = render_text rs (Some filename) (item_lang item) (item_text item) (logged s);
          s1 = s\<lparr>logged := lg\<rparr>
      in case r of
           Inl e \<Rightarrow> (Inl e, s1)
         | Inr html_part \<Rightarrow>
             let entry = \<lparr>entry_filename = filename, entry_dirname = dirname',
                          entry_html_part = html_part\<rparr>
             in case cache_set_entry buffer_id entry (cache s1) of
                  Inl e \<Rightarrow> (Inl e, s1)
                | Inr c \<Rightarrow> (Inr (), s1\<lparr>cache := c\<rparr>))"

definition run_queued_item_with ::
  "set_entry_call \<Rightarrow> Renderer list \<Rightarrow> int \<Rightarrow> WorkerQueueItem \<Rightarrow> state
     \<Rightarrow> (py_exception + unit) \<times> state" where
  "run_queued_item_with cache_set_entry rs buffer_id item s =
     (case run_queued_item_try_with cache_set_entry rs buffer_id item s of
        (Inr u, s') \<Rightarrow> (Inr u, s')
      | (Inl NotImplementedError, s') \<Rightarrow> (Inr (), s')
      | (Inl e, s') \<Rightarrow> (Inr (), s'\<lparr>logged := logged s' @ [LogException [] e]\<rparr>))"

fun run_items_with ::
  "set_entry_call \<Rightarrow> Renderer list \<Rightarrow> (int \<times> WorkerQueueItem) list \<Rightarrow> state
     \<Rightarrow> (py_exception + unit) \<times> state" where
  "run_items_with cache_set_entry rs [] s = (Inr (), s)"
| "run_items_with cache_set_entry rs ((buffer_id, item) # items) s =
     (case run_queued_item_with cache_set_entry rs buffer_id item s of
        (Inl e, s') \<Rightarrow> (Inl e, s')
      | (Inr u, s') \<Rightarrow> run_items_with cache_set_entry rs items s')"

text \<open>
  \<open>RendererWorker.__init__\<close> starts with an empty dict and the flag off.
\<close>

definition RendererWorker_init :: "RenderedMarkupCache \<Rightarrow> log_record list \<Rightarrow> state" where
  "RendererWorker_init c lg = \<lparr>que = [], stopping = False, cache = c, logged = lg\<rparr>"

text \<open>
  \<open>RendererWorker.run\<close> as a state machine. The worker thread is at one of four places:
  blocked in \<open>self.cond.wait()\<close>, inside the \<open>for\<close> loop with the items it has still to
  process, past the \<open>break\<close>, or unwound by an exception.
  \<^verbatim>\<open>
    while True:
        with self.cond:
            self.cond.wait()
            if self.stopping:
                break
            if len(self.que) == 0:
                continue
            items = self.que.items()
            self.que.clear()
        for buffer_id, item in items:
            self._run_queued_item(buffer_id, item)
  \<close>
  The other threads act through \<open>queue\<close> and \<open>stop\<close>; \<open>stop\<close> is
  \<open>self.stopping = True\<close> followed by a notify and a join. The steps of all threads
  interleave: \<open>WakeUp\<close> is the return of \<open>wait()\<close> (after a notify, or spuriously) with
  the block under the lock that follows it, \<open>ProcessNext\<close> is one turn of the \<open>for\<close>
  loop, \<open>CallQueue\<close> and \<open>CallStop\<close> are calls made by other threads. A wake-up that
  finds the worker anywhere but in \<open>wait()\<close> is lost, as a notify without a waiter is.
\<close>

datatype worker_phase =
    WAITING
  | PROCESSING "(int \<times> WorkerQueueItem) list"
  | TERMINATED
  | RAISED py_exception

datatype event =
    WakeUp
  | ProcessNext
  | CallQueue int "string option" string string bool
  | CallStop

fun run_step :: "Renderer list \<Rightarrow> event \<Rightarrow> worker_phase \<times> state \<Rightarrow> worker_phase \<times> state" where
  "run_step rs WakeUp (WAITING, s) =
     (if stopping s then (TERMINATED, s)
      else if length (que s) = 0 then (WAITING, s)
      else (PROCESSING (que s), s\<lparr>que := []\<rparr>))"
| "run_step rs ProcessNext (PROCESSING [], s) = (WAITING, s)"
| "run_step rs ProcessNext (PROCESSING ((buffer_id, item) # items), s) =
     (case run_queued_item rs buffer_id item s of
        (Inl e, s') \<Rightarrow> (RAISED e, s')
      | (Inr u, s') \<Rightarrow> (PROCESSING items, s'))"
| "run_step rs (CallQueue buffer_id fullpath lang txt immediate) (ph, s) =
     (ph, snd (queue rs buffer_id fullpath lang txt immediate s))"
| "run_step rs CallStop (ph, s) = (ph, s\<lparr>stopping := True\<rparr>)"
| "run_step rs ev (ph, s) = (ph, s)"

definition run :: "Renderer list \<Rightarrow> event list \<Rightarrow> worker_phase \<times> state \<Rightarrow> worker_phase \<times> state" where
  "run rs evs c = foldl (\<lambda>c ev. run_step rs ev c) c evs"

section \<open>\<open>RendererManager\<close>: language detection and the enabled check\<close>

text \<open>
  Strings are Python 2 byte strings. Without the \<open>UNICODE\<close> and \<open>LOCALE\<close> flags \<open>\s\<close>
  is the class \<open>[ \t\n\r\f\v]\<close>, and \<open>lower()\<close> maps \<open>A\<close>..\<open>Z\<close> to \<open>a\<close>..\<open>z\<close>.
\<close>

definition is_space :: "char \<Rightarrow> bool" where
  "is_space c = (c \<in> set [CHR 0x20, CHR 0x09, CHR 0x0A, CHR 0x0D, CHR 0x0C, CHR 0x0B])"

definition lower_char :: "char \<Rightarrow> char" where
  "lower_char c =
     (let n = (of_char c :: nat) in if 65 \<le> n \<and> n \<le> 90 then char_of (n + 32) else c)"

definition lower :: "string \<Rightarrow> string" where
  "lower s = map lower_char s"

text \<open>
  \<open>LANG_RE = re.compile(r"^[^\s]+(?=\s+)")\<close>, as the backtracking matcher runs it.
  \<open>^\<close> holds at position 0 only (no \<open>MULTILINE\<close>). \<open>[^\s]+\<close> is greedy: it takes the
  longest run of non-whitespace first and gives characters back one at a time, down to
  one character. The lookahead \<open>(?=\s+)\<close> holds where at least one whitespace character
  follows, and consumes nothing. \<open>search\<close> tries the start positions from left to right
  and returns the first match; \<open>m.group(0)\<close> is the matched slice.
\<close>

definition lookahead_spaces :: "string \<Rightarrow> bool" where
  "lookahead_spaces rest = (takeWhile is_space rest \<noteq> [])"

definition LANG_RE_match_at :: "string \<Rightarrow> nat \<Rightarrow> (nat \<times> nat) option" where
  "LANG_RE_match_at s pos =
     (if pos \<noteq> 0 then None
      else
        let n = length (takeWhile (\<lambda>c. \<not> is_space c) (drop pos s))
        in case find (\<lambda>k. lookahead_spaces (drop (pos + k) s)) (rev [1..<Suc n]) of
             None \<Rightarrow> None
           | Some k \<Rightarrow> Some (pos, pos + k))"

definition LANG_RE_search :: "string \<Rightarrow> string option" where
  "LANG_RE_search s =
     (case find (\<lambda>pos. LANG_RE_match_at s pos \<noteq> None) [0..<Suc (length s)] of
        None \<Rightarrow> None
      | Some pos \<Rightarrow>
          map_option (\<lambda>(a, b). take (b - a) (drop a s)) (LANG_RE_match_at s pos))"

text \<open>
  \<^verbatim>\<open>
    m = cls.LANG_RE.search(scope_name)
    if m is None:
        lang = ""
    else:
        lang = m.group(0).lower()
    return lang
  \<close>
\<close>

definition get_lang_by_scope_name :: "string \<Rightarrow> string" where
  "get_lang_by_scope_name scope_name =
     (case LANG_RE_search scope_name of
        None \<Rightarrow> []
      | Some m \<Rightarrow> lower m)"

text \<open>
  \<^verbatim>\<open>
    # filename may be None, so prevent it
    filename = filename or ""
    for renderer in cls.RENDERERS:
        if renderer.is_enabled(filename, lang):
            return True
    return False
  \<close>
  No \<open>try\<close> here: an exception of \<open>is_enabled\<close> leaves the function.
\<close>

fun is_renderers_enabled_loop :: "Renderer list \<Rightarrow> string \<Rightarrow> string \<Rightarrow> py_exception + bool" where
  "is_renderers_enabled_loop [] filename lang = Inr False"
| "is_renderers_enabled_loop (renderer # rest) filename lang =
     (case is_enabled renderer (Some filename) lang of
        Inl e \<Rightarrow> Inl e
      | Inr enabled \<Rightarrow>
          if enabled then Inr True else is_renderers_enabled_loop rest filename lang)"

definition is_renderers_enabled ::
  "Renderer list \<Rightarrow> string option \<Rightarrow> string \<Rightarrow> py_exception + bool" where
  "is_renderers_enabled rs filename lang =
     (let filename' = (case filename of None \<Rightarrow> [] | Some f \<Rightarrow> f)
      in is_renderers_enabled_loop rs filename' lang)"

section \<open>Views and \<open>RendererManager.queue_view\<close>\<close>

text \<open>
  The editor's view object, as far as the module reads it: \<open>buffer_id()\<close>, \<open>file_name()\<close>
  (\<open>None\<close> for an unsaved buffer), \<open>scope_name(point)\<close>, the buffer's characters behind
  \<open>size()\<close> and \<open>substr(region)\<close>, and the settings object behind \<open>settings()\<close> with
  \<open>get(key, default)\<close> and \<open>set(key, value)\<close>. A setting holds a JSON value, which
  \<open>not\<close> tests for truth the Python way.
\<close>

datatype setting_value = SNull | SBool bool | SInt int | SStr string

fun truthy :: "setting_value \<Rightarrow> bool" where
  "truthy SNull = False"
| "truthy (SBool b) = b"
| "truthy (SInt n) = (n \<noteq> 0)"
| "truthy (SStr str) = (str \<noteq> [])"

record View =
  view_buffer_id :: int
  view_file_name :: "string option"
  view_scope_name :: "nat \<Rightarrow> string"
  view_chars :: string
  view_settings :: "string \<rightharpoonup> setting_value"

definition view_size :: "View \<Rightarrow> nat" where
  "view_size view = length (view_chars view)"

definition view_substr :: "View \<Rightarrow> nat \<times> nat \<Rightarrow> string" where
  "view_substr view region = take (snd region - fst region) (drop (fst region) (view_chars view))"

definition settings_get :: "(string \<rightharpoonup> setting_value) \<Rightarrow> string \<Rightarrow> setting_value \<Rightarrow> setting_value" where
  "settings_get settings key dflt = (case settings key of None \<Rightarrow> dflt | Some v \<Rightarrow> v)"

text \<open>
  \<^verbatim>\<open>
    filename = view.file_name()
    lang = cls.get_lang_by_scope_name(view.scope_name(0))
    return cls.is_renderers_enabled(filename, lang)
  \<close>
\<close>

definition has_renderer_enabled_in_view :: "Renderer list \<Rightarrow> View \<Rightarrow> py_exception + bool" where
  "has_renderer_enabled_in_view rs view =
     is_renderers_enabled rs (view_file_name view) (get_lang_by_scope_name (view_scope_name view 0))"

text \<open>
  \<^verbatim>\<open>
    buffer_id = view.buffer_id()
    settings = view.settings()
    if only_exists and not RenderedMarkupCache.instance().exists(buffer_id):
        # If current view is previously rendered, then ignore 'only_exists'
        if not settings.get('omnimarkup_enabled', False):
            return
    settings.set('omnimarkup_enabled', True)
    region = sublime.Region(0, view.size())
    text = view.substr(region)
    lang = cls.get_lang_by_scope_name(view.scope_name(0))
    cls.WORKER.queue(buffer_id, view.file_name(), lang, text, immediate=immediate)
  \<close>
  The call changes the view's settings and the worker's state; both are returned.
\<close>

definition queue_view ::
  "Renderer list \<Rightarrow> View \<Rightarrow> bool \<Rightarrow> bool \<Rightarrow> state \<Rightarrow> (py_exception + unit) \<times> View \<times> state" where
  "queue_view rs view only_exists immediate s =
     (let buffer_id = view_buffer_id view;
          settings = view_settings view
      in if only_exists \<and> \<not> exists_entry buffer_id (cache s)
            \<and> \<not> truthy (settings_get settings ''omnimarkup_enabled'' (SBool False))
         then (Inr (), view, s)
         else
           let view' = view\<lparr>view_settings := settings(''omnimarkup_enabled'' \<mapsto> SBool True)\<rparr>;
               region = (0, view_size view');
               txt = view_substr view' region;
               lang = get_lang_by_scope_name (view_scope_name view' 0);
               (r, s') = queue rs buffer_id (view_file_name view') lang txt immediate s
           in (r, view', s'))"

section \<open>Auxiliary notions for the statements\<close>

text \<open>
  A renderer succeeds on a request when it reports itself enabled and its render call
  returns.
\<close>

definition succeeds :: "string option \<Rightarrow> string \<Rightarrow> string \<Rightarrow> Renderer \<Rightarrow> bool" where
  "succeeds filename lang txt renderer =
     (is_enabled renderer filename lang = Inr True \<and> \<not> isl (render renderer txt filename))"

text \<open>
  Three concrete plugins used to evaluate the statements: one whose \<open>is_enabled\<close>
  raises, one that is enabled for the language \<open>plain\<close> and whose \<open>render\<close> raises,
  and one that is enabled for \<open>plain\<close> and renders.
\<close>

definition BrokenRenderer :: Renderer where
  "BrokenRenderer =
     \<lparr>class_name = ''BrokenRenderer'',
      is_enabled = (\<lambda>filename lang. Inl (OtherError ''boom'')),
      render = (\<lambda>txt filename. Inr txt)\<rparr>"

definition FailingRenderer :: Renderer where
  "FailingRenderer =
     \<lparr>class_name = ''FailingRenderer'',
      is_enabled = (\<lambda>filename lang. Inr (lang = ''plain'')),
      render = (\<lambda>txt filename. Inl (OtherError ''bad markup''))\<rparr>"

definition PlainRenderer :: Renderer where
  "PlainRenderer =
     \<lparr>class_name = ''PlainRenderer'',
      is_enabled = (\<lambda>filename lang. Inr (lang = ''plain'')),
      render = (\<lambda>txt filename. Inr (''<pre>'' @ txt @ ''</pre>''))\<rparr>"

text \<open>
  A cache whose \<open>set_entry\<close> raises for one key and stores under every other.
\<close>

definition refusing_set_entry :: "int \<Rightarrow> set_entry_call" where
  "refusing_set_entry refused buffer_id entry c =
     (if buffer_id = refused then Inl (OtherError ''cache write refused'')
      else Inr (set_entry buffer_id entry c))"

text \<open>
  The dispatch that \<open>_run_queued_item\<close> makes for an item, and the cache entry it builds
  from the result.
\<close>

definition dispatch :: "Renderer list \<Rightarrow> WorkerQueueItem \<Rightarrow> log_record list \<Rightarrow> (py_exception + string) \<times> log_record list" where
  "dispatch rs item lg =
     render_text rs (Some (basename (item_fullpath item))) (item_lang item) (item_text item) lg"

definition entry_of :: "WorkerQueueItem \<Rightarrow> string \<Rightarrow> RenderedMarkupCacheEntry" where
  "entry_of item html =
     \<lparr>entry_filename = basename (item_fullpath item),
      entry_dirname = dirname (item_fullpath item),
      entry_html_part = html\<rparr>"

text \<open>
  A sequence of non-immediate \<open>queue\<close> calls, each one atomic under the lock, made while
  the worker does not drain.
\<close>

definition submit_all ::
  "Renderer list \<Rightarrow> (int \<times> string option \<times> string \<times> string) list \<Rightarrow> state \<Rightarrow> state" where
  "submit_all rs subs s =
     foldl (\<lambda>s' (buffer_id, fullpath, lang, txt). snd (queue rs buffer_id fullpath lang txt False s')) s subs"

text \<open>
  The language as C10 words it: the first maximal run of non-whitespace characters of the
  scope name, lowercased, when a whitespace character follows the run, and the empty
  string otherwise.
\<close>

definition first_run :: "string \<Rightarrow> string" where
  "first_run s = takeWhile (\<lambda>c. \<not> is_space c) (dropWhile is_space s)"

definition claimed_lang :: "string \<Rightarrow> string" where
  "claimed_lang s =
     (if first_run s \<noteq> [] \<and> dropWhile (\<lambda>c. \<not> is_space c) (dropWhile is_space s) \<noteq> []
      then lower (first_run s) else [])"

text \<open>
  To say that a function never hands \<open>None\<close> to \<open>is_enabled\<close>: the renderer whose answer
  at \<open>None\<close> is replaced by a given one, and two plugins that tell \<open>None\<close>, the empty
  string and any other name apart.
\<close>

definition with_None_answer :: "py_exception + bool \<Rightarrow> Renderer \<Rightarrow> Renderer" where
  "with_None_answer a renderer =
     renderer\<lparr>is_enabled :=
       (\<lambda>filename lang. case filename of None \<Rightarrow> a | Some f \<Rightarrow> is_enabled renderer filename lang)\<rparr>"

definition NoneRenderer :: Renderer where
  "NoneRenderer =
     \<lparr>class_name = ''NoneRenderer'',
      is_enabled = (\<lambda>filename lang. Inr (filename = None)),
      render = (\<lambda>txt filename. Inr txt)\<rparr>"

definition EmptyNameRenderer :: Renderer where
  "EmptyNameRenderer =
     \<lparr>class_name = ''EmptyNameRenderer'',
      is_enabled = (\<lambda>filename lang. Inr (filename = Some [])),
      render = (\<lambda>txt filename. Inr txt)\<rparr>"


section \<open>Properties of dispatch\<close>

lemma render_text_result:
  "fst (render_text rs filename lang txt lg) =
     (case find (succeeds filename lang txt) rs of
        None \<Rightarrow> Inl NotImplementedError
      | Some renderer \<Rightarrow> render renderer txt filename)"
  by (induction rs arbitrary: lg) (auto simp: succeeds_def split: sum.splits)

lemma render_text_raises_only_NotImplementedError:
  "fst (render_text rs filename lang txt lg) \<noteq> Inl (OtherError m)"
  by (induction rs arbitrary: lg) (auto split: sum.splits)

lemma find_skip:
  "\<not> P x \<Longrightarrow> find P (pre @ x # post) = find P (pre @ post)"
  by (induction pre) auto

lemma find_first:
  "\<forall>p \<in> set pre. \<not> P p \<Longrightarrow> P x \<Longrightarrow> find P (pre @ x # post) = Some x"
  by (induction pre) auto

text \<open>
  C2 (as the code has it). An exception raised by a renderer's \<open>is_enabled\<close> inside
  \<open>render_text\<close> is caught by the handler of the loop, the same one that catches a
  failing \<open>render\<close>: it is logged under the renderer's class name and the loop goes on
  with the next renderer. The result of the dispatch is the one the remaining renderers
  give, and no exception other than \<open>NotImplementedError\<close> leaves \<open>render_text\<close>.
\<close>

theorem render_text_catches_is_enabled_error:
  assumes "is_enabled renderer filename lang = Inl e"
  shows "render_text (renderer # rest) filename lang txt lg =
           render_text rest filename lang txt (lg @ [rendering_failed renderer e])
         \<and> fst (render_text (pre @ renderer # post) filename lang txt lg) =
           fst (render_text (pre @ post) filename lang txt lg)
         \<and> fst (render_text (pre @ renderer # post) filename lang txt lg) \<noteq> Inl (OtherError m)"
proof -
  have "\<not> succeeds filename lang txt renderer"
    using assms by (simp add: succeeds_def)
  then have "find (succeeds filename lang txt) (pre @ renderer # post) =
             find (succeeds filename lang txt) (pre @ post)"
    by (rule find_skip)
  then have skipped: "fst (render_text (pre @ renderer # post) filename lang txt lg) =
                      fst (render_text (pre @ post) filename lang txt lg)"
    by (simp only: render_text_result)
  have caught: "render_text (renderer # rest) filename lang txt lg =
                  render_text rest filename lang txt (lg @ [rendering_failed renderer e])"
    using assms by simp
  from caught skipped render_text_raises_only_NotImplementedError show ?thesis
    by blast
qed

text \<open>
  The theorem at a registry whose first renderer has a raising \<open>is_enabled\<close>.
\<close>

theorem render_text_catches_is_enabled_error_witness:
  "is_enabled BrokenRenderer (Some ''a.txt'') ''plain'' = Inl (OtherError ''boom'')
   \<and> render_text [BrokenRenderer, PlainRenderer] (Some ''a.txt'') ''plain'' ''hi'' [] =
       (Inr ''<pre>hi</pre>'', [rendering_failed BrokenRenderer (OtherError ''boom'')])"
  using render_text_catches_is_enabled_error
          [of BrokenRenderer "Some ''a.txt''" "''plain''" "OtherError ''boom''" "[PlainRenderer]" "''hi''" "[]" "[]" "[]"]
  by (simp add: BrokenRenderer_def PlainRenderer_def)

text \<open>
  C2 as stated fails: the error of \<open>is_enabled\<close> does not leave \<open>render_text\<close>. Alone in
  the registry the broken renderer leads to another exception, and followed by a working
  renderer to a normal result.
\<close>

theorem is_enabled_error_propagates_counterexample:
  "is_enabled BrokenRenderer (Some ''a.txt'') ''plain'' = Inl (OtherError ''boom'')
   \<and> fst (render_text [BrokenRenderer] (Some ''a.txt'') ''plain'' ''hi'' []) \<noteq> Inl (OtherError ''boom'')
   \<and> fst (render_text [BrokenRenderer, PlainRenderer] (Some ''a.txt'') ''plain'' ''hi'' []) = Inr ''<pre>hi</pre>''"
  by (simp add: BrokenRenderer_def PlainRenderer_def)

text \<open>
  C3. \<open>render_text\<close> raises \<open>NotImplementedError\<close> exactly when no registered renderer both
  reports itself enabled for the filename and language and returns from its render call.
\<close>

theorem render_text_raises_iff_no_renderer_succeeds:
  "fst (render_text rs filename lang txt lg) = Inl NotImplementedError \<longleftrightarrow>
     \<not> (\<exists>renderer \<in> set rs. is_enabled renderer filename lang = Inr True
           \<and> (\<exists>html. render renderer txt filename = Inr html))"
proof (cases "find (succeeds filename lang txt) rs")
  case None
  then have "\<forall>r \<in> set rs. \<not> succeeds filename lang txt r"
    by (simp add: find_None_iff)
  then have "\<not> (\<exists>renderer \<in> set rs. is_enabled renderer filename lang = Inr True
                   \<and> (\<exists>html. render renderer txt filename = Inr html))"
    by (auto simp: succeeds_def)
  with None show ?thesis by (simp add: render_text_result)
next
  case (Some r)
  then have "r \<in> set rs" and "succeeds filename lang txt r"
    by (auto simp: find_Some_iff)
  then obtain html where "is_enabled r filename lang = Inr True" "render r txt filename = Inr html"
    by (cases "render r txt filename") (auto simp: succeeds_def)
  with Some \<open>r \<in> set rs\<close> show ?thesis
    by (auto simp: render_text_result)
qed

text \<open>
  The equivalence at three registries: every enabled renderer fails, no renderer is
  enabled, and a failing renderer followed by a working one.
\<close>

theorem render_text_raises_iff_no_renderer_succeeds_witness:
  "fst (render_text [FailingRenderer] None ''plain'' ''hi'' []) = Inl NotImplementedError
   \<and> fst (render_text [PlainRenderer] None ''markdown'' ''hi'' []) = Inl NotImplementedError
   \<and> fst (render_text [FailingRenderer, PlainRenderer] None ''plain'' ''hi'' []) \<noteq> Inl NotImplementedError"
  using render_text_raises_iff_no_renderer_succeeds [of "[FailingRenderer]" None "''plain''" "''hi''" "[]"]
        render_text_raises_iff_no_renderer_succeeds [of "[PlainRenderer]" None "''markdown''" "''hi''" "[]"]
        render_text_raises_iff_no_renderer_succeeds [of "[FailingRenderer, PlainRenderer]" None "''plain''" "''hi''" "[]"]
  by (simp add: FailingRenderer_def PlainRenderer_def)

text \<open>
  C4. \<open>render_text\<close> goes through the renderers in registration order and returns the
  output of the first one that is enabled and whose render call returns. In particular,
  of two enabled renderers where the render call of the first raises and that of the
  second returns, the output is the second's.
\<close>

theorem render_text_first_success:
  assumes "\<forall>p \<in> set pre. \<not> succeeds filename lang txt p"
    and "is_enabled renderer filename lang = Inr True"
    and "render renderer txt filename = Inr html"
  shows "fst (render_text (pre @ renderer # post) filename lang txt lg) = Inr html
         \<and> (is_enabled first filename lang = Inr True \<longrightarrow> render first txt filename = Inl e \<longrightarrow>
              fst (render_text [first, renderer] filename lang txt lg) = Inr html)"
proof -
  have ok: "succeeds filename lang txt renderer"
    using assms(2,3) by (simp add: succeeds_def)
  have "find (succeeds filename lang txt) (pre @ renderer # post) = Some renderer"
    using assms(1) ok by (rule find_first)
  then have general: "fst (render_text (pre @ renderer # post) filename lang txt lg) = Inr html"
    using assms(3) by (simp add: render_text_result)
  have "fst (render_text [first, renderer] filename lang txt lg) = Inr html"
    if "render first txt filename = Inl e"
  proof -
    have "\<not> succeeds filename lang txt first"
      using that by (simp add: succeeds_def)
    then have "find (succeeds filename lang txt) [first, renderer] = Some renderer"
      using ok by simp
    then show ?thesis
      using assms(3) by (simp only: render_text_result option.case)
  qed
  with general show ?thesis by blast
qed

text \<open>
  The theorem at a registry of a failing renderer, a working one and a broken one.
\<close>

theorem render_text_first_success_witness:
  "fst (render_text [FailingRenderer, PlainRenderer, BrokenRenderer] (Some ''a.txt'') ''plain'' ''hi'' [])
     = Inr ''<pre>hi</pre>''
   \<and> fst (render_text [FailingRenderer, PlainRenderer] (Some ''a.txt'') ''plain'' ''hi'' [])
     = Inr ''<pre>hi</pre>''"
  using render_text_first_success
          [of "[FailingRenderer]" "Some ''a.txt''" "''plain''" "''hi''" PlainRenderer "''<pre>hi</pre>''"
              "[BrokenRenderer]" "[]" FailingRenderer "OtherError ''bad markup''"]
  by (simp add: succeeds_def FailingRenderer_def PlainRenderer_def)

section \<open>Properties of per-item processing\<close>

lemma render_text_result_log_free:
  "fst (render_text rs filename lang txt lg) = fst (render_text rs filename lang txt lg')"
  by (simp only: render_text_result)

lemma run_queued_item_eq:
  "run_queued_item rs buffer_id item s =
     (Inr (),
      case fst (dispatch rs item (logged s)) of
        Inr html \<Rightarrow>
          s\<lparr>logged := snd (dispatch rs item (logged s)),
            cache := (cache s)(buffer_id \<mapsto> entry_of item html)\<rparr>
      | Inl NotImplementedError \<Rightarrow> s\<lparr>logged := snd (dispatch rs item (logged s))\<rparr>
      | Inl (OtherError m) \<Rightarrow>
          s\<lparr>logged := snd (dispatch rs item (logged s)) @ [LogException [] (OtherError m)]\<rparr>)"
  by (simp add: run_queued_item_def run_queued_item_try_def dispatch_def entry_of_def set_entry_def
        Let_def split: prod.splits sum.splits py_exception.splits)

lemma run_queued_item_returns: "fst (run_queued_item rs buffer_id item s) = Inr ()"
  by (simp add: run_queued_item_eq)

lemma run_queued_item_que: "que (snd (run_queued_item rs buffer_id item s)) = que s"
  by (simp add: run_queued_item_eq split: sum.splits py_exception.splits)

lemma run_queued_item_stopping: "stopping (snd (run_queued_item rs buffer_id item s)) = stopping s"
  by (simp add: run_queued_item_eq split: sum.splits py_exception.splits)

lemma run_queued_item_cache:
  "cache (snd (run_queued_item rs buffer_id item s)) =
     (case fst (dispatch rs item (logged s)) of
        Inr html \<Rightarrow> (cache s)(buffer_id \<mapsto> entry_of item html)
      | Inl e \<Rightarrow> cache s)"
  by (simp add: run_queued_item_eq split: sum.splits py_exception.splits)

lemma run_items_eq:
  "run_items rs items s =
     (Inr (), foldl (\<lambda>s' (buffer_id, item). snd (run_queued_item rs buffer_id item s')) s items)"
proof (induction items arbitrary: s)
  case Nil
  show ?case by simp
next
  case (Cons p items)
  obtain buffer_id item where p: "p = (buffer_id, item)" by (cases p)
  obtain s' where r: "run_queued_item rs buffer_id item s = (Inr (), s')"
    using run_queued_item_returns [of rs buffer_id item s]
    by (cases "run_queued_item rs buffer_id item s") auto
  show ?case
    using Cons.IH [of s'] by (simp add: p r)
qed

lemma run_items_cache_other:
  "buffer_id \<notin> fst ` set items \<Longrightarrow> cache (snd (run_items rs items s)) buffer_id = cache s buffer_id"
proof (induction items arbitrary: s)
  case Nil
  show ?case by simp
next
  case (Cons p items)
  obtain b item where p: "p = (b, item)" by (cases p)
  obtain s' where r: "run_queued_item rs b item s = (Inr (), s')"
    using run_queued_item_returns [of rs b item s]
    by (cases "run_queued_item rs b item s") auto
  have "cache s' buffer_id = cache s buffer_id"
    using run_queued_item_cache [of rs b item s] Cons.prems r p
    by (auto split: sum.splits)
  moreover have "cache (snd (run_items rs items s')) buffer_id = cache s' buffer_id"
    using Cons.IH [of s'] Cons.prems by simp
  ultimately show ?case by (simp add: p r)
qed

lemma run_items_cache_written:
  assumes "(buffer_id, item) \<in> set items" and "distinct (map fst items)"
    and "fst (dispatch rs item lg) = Inr html"
  shows "cache (snd (run_items rs items s)) buffer_id = Some (entry_of item html)"
  using assms(1,2)
proof (induction items arbitrary: s)
  case Nil
  then show ?case by simp
next
  case (Cons p items)
  obtain b it where p: "p = (b, it)" by (cases p)
  obtain s' where r: "run_queued_item rs b it s = (Inr (), s')"
    using run_queued_item_returns [of rs b it s]
    by (cases "run_queued_item rs b it s") auto
  show ?case
  proof (cases "p = (buffer_id, item)")
    case True
    then have here: "b = buffer_id" "it = item" using p by auto
    have "fst (dispatch rs item (logged s)) = Inr html"
      using assms(3) render_text_result_log_free [of rs _ _ _ "logged s" lg]
      by (simp add: dispatch_def)
    then have "cache s' buffer_id = Some (entry_of item html)"
      using run_queued_item_cache [of rs b it s] r here by simp
    moreover have "buffer_id \<notin> fst ` set items"
      using Cons.prems(2) p here by auto
    ultimately show ?thesis
      using run_items_cache_other [of buffer_id items rs s'] by (simp add: p r)
  next
    case False
    then have "(buffer_id, item) \<in> set items" using Cons.prems(1) by auto
    moreover have "distinct (map fst items)" using Cons.prems(2) by simp
    ultimately have "cache (snd (run_items rs items s')) buffer_id = Some (entry_of item html)"
      by (rule Cons.IH)
    then show ?thesis by (simp add: p r)
  qed
qed

lemma run_queued_item_with_eq:
  "run_queued_item_with cache_set_entry rs buffer_id item s =
     (Inr (),
      case fst (dispatch rs item (logged s)) of
        Inl e \<Rightarrow> s\<lparr>logged := snd (dispatch rs item (logged s))\<rparr>
      | Inr html \<Rightarrow>
          (case cache_set_entry buffer_id (entry_of item html) (cache s) of
             Inr c \<Rightarrow> s\<lparr>logged := snd (dispatch rs item (logged s)), cache := c\<rparr>
           | Inl NotImplementedError \<Rightarrow> s\<lparr>logged := snd (dispatch rs item (logged s))\<rparr>
           | Inl (OtherError m) \<Rightarrow>
               s\<lparr>logged := snd (dispatch rs item (logged s)) @ [LogException [] (OtherError m)]\<rparr>))"
proof -
  obtain r lg where d: "dispatch rs item (logged s) = (r, lg)"
    by (cases "dispatch rs item (logged s)")
  then have d': "render_text rs (Some (basename (item_fullpath item))) (item_lang item)
                   (item_text item) (logged s) = (r, lg)"
    by (simp add: dispatch_def)
  show ?thesis
  proof (cases r)
    case (Inl e)
    have "e = NotImplementedError"
    proof (cases e)
      case (OtherError m)
      then show ?thesis
        using render_text_raises_only_NotImplementedError
          [of rs "Some (basename (item_fullpath item))" "item_lang item" "item_text item" "logged s" m]
          d' Inl by simp
    qed simp
    then show ?thesis
      using Inl by (simp add: run_queued_item_with_def run_queued_item_try_with_def d d')
  next
    case (Inr html)
    then show ?thesis
      by (simp add: run_queued_item_with_def run_queued_item_try_with_def d d' entry_of_def
            split: sum.splits py_exception.splits)
  qed
qed

lemma run_queued_item_with_total:
  "run_queued_item_with total_set_entry rs buffer_id item s = run_queued_item rs buffer_id item s"
proof -
  have "run_queued_item_try_with total_set_entry rs buffer_id item s =
          run_queued_item_try rs buffer_id item s"
    by (simp add: run_queued_item_try_with_def run_queued_item_try_def total_set_entry_def
          Let_def split: prod.splits sum.splits)
  then show ?thesis
    by (simp only: run_queued_item_with_def run_queued_item_def)
qed

lemma run_items_with_total:
  "run_items_with total_set_entry rs items s = run_items rs items s"
  by (induction items arbitrary: s) (auto simp: run_queued_item_with_total split: prod.splits sum.splits)

lemma run_items_with_eq:
  "run_items_with cache_set_entry rs items s =
     (Inr (),
      foldl (\<lambda>s' (buffer_id, item). snd (run_queued_item_with cache_set_entry rs buffer_id item s'))
        s items)"
proof (induction items arbitrary: s)
  case Nil
  show ?case by simp
next
  case (Cons p items)
  obtain buffer_id item where p: "p = (buffer_id, item)" by (cases p)
  obtain s' where r: "run_queued_item_with cache_set_entry rs buffer_id item s = (Inr (), s')"
    by (simp add: run_queued_item_with_eq)
  show ?case
    using Cons.IH [of s'] by (simp add: p r)
qed

section \<open>Properties of the queue and of the batch\<close>

text \<open>
  C5. A call \<open>queue(buffer_id, fullpath, lang, text, immediate=True)\<close> returns normally,
  leaves the pending dict as it was, and has by then written the cache entry for
  \<open>buffer_id\<close> when the dispatch succeeded and left the cache alone when the dispatch
  failed (the failure having been caught).
\<close>

theorem queue_immediate:
  "fst (queue rs buffer_id fullpath lang txt True s) = Inr ()
   \<and> que (snd (queue rs buffer_id fullpath lang txt True s)) = que s
   \<and> cache (snd (queue rs buffer_id fullpath lang txt True s)) =
       (case fst (dispatch rs (WorkerQueueItem_init 0 fullpath lang txt) (logged s)) of
          Inr html \<Rightarrow>
            (cache s)(buffer_id \<mapsto> entry_of (WorkerQueueItem_init 0 fullpath lang txt) html)
        | Inl e \<Rightarrow> cache s)"
  by (simp add: queue_def run_queued_item_returns run_queued_item_que run_queued_item_cache)

text \<open>
  C6. Processing one item returns normally in every case, whatever the cache's
  \<open>set_entry\<close> does. When the dispatch succeeds and the entry is stored, the cache holds
  the entry under the item's \<open>buffer_id\<close>. When the dispatch raises (which it does
  with \<open>NotImplementedError\<close> only) the handler adds nothing: the cache is as before and
  the log holds only what the dispatch itself wrote; the same holds when \<open>set_entry\<close>
  raises \<open>NotImplementedError\<close>. On any other exception of the \<open>try\<close> block the handler
  writes a log record and the cache is as before. The loop over a batch therefore runs
  every item. With the store of the spec, an item whose dispatch succeeds has its entry in
  the cache after the batch, whatever happened to the items before it.
\<close>

theorem run_queued_item_isolates_failures:
  "run_queued_item_with cache_set_entry rs buffer_id item s =
     (Inr (),
      case fst (dispatch rs item (logged s)) of
        Inl e \<Rightarrow> s\<lparr>logged := snd (dispatch rs item (logged s))\<rparr>
      | Inr html \<Rightarrow>
          (case cache_set_entry buffer_id (entry_of item html) (cache s) of
             Inr c \<Rightarrow> s\<lparr>logged := snd (dispatch rs item (logged s)), cache := c\<rparr>
           | Inl NotImplementedError \<Rightarrow> s\<lparr>logged := snd (dispatch rs item (logged s))\<rparr>
           | Inl (OtherError m) \<Rightarrow>
               s\<lparr>logged := snd (dispatch rs item (logged s)) @ [LogException [] (OtherError m)]\<rparr>))
   \<and> run_items_with cache_set_entry rs items s =
       (Inr (),
        foldl (\<lambda>s' (b, it). snd (run_queued_item_with cache_set_entry rs b it s')) s items)
   \<and> run_queued_item rs buffer_id item s =
       run_queued_item_with total_set_entry rs buffer_id item s
   \<and> run_items rs items s = run_items_with total_set_entry rs items s
   \<and> run_queued_item rs buffer_id item s =
       (Inr (),
        case fst (dispatch rs item (logged s)) of
          Inr html \<Rightarrow>
            s\<lparr>logged := snd (dispatch rs item (logged s)),
              cache := (cache s)(buffer_id \<mapsto> entry_of item html)\<rparr>
        | Inl NotImplementedError \<Rightarrow> s\<lparr>logged := snd (dispatch rs item (logged s))\<rparr>
        | Inl (OtherError m) \<Rightarrow>
            s\<lparr>logged := snd (dispatch rs item (logged s)) @ [LogException [] (OtherError m)]\<rparr>)
   \<and> run_items rs items s =
       (Inr (), foldl (\<lambda>s' (b, it). snd (run_queued_item rs b it s')) s items)
   \<and> ((b, it) \<in> set items \<longrightarrow> distinct (map fst items) \<longrightarrow>
        fst (dispatch rs it lg) = Inr html \<longrightarrow>
        cache (snd (run_items rs items s)) b = Some (entry_of it html))"
  using run_queued_item_with_eq [of cache_set_entry rs buffer_id item s]
    run_items_with_eq [of cache_set_entry rs items s]
    run_queued_item_with_total [of rs buffer_id item s]
    run_items_with_total [of rs items s]
    run_queued_item_eq [of rs buffer_id item s] run_items_eq [of rs items s]
    run_items_cache_written [of b it items rs lg html s]
  by presburger

text \<open>
  A batch whose first item has no renderer: the second item is still rendered and
  cached. An item whose cache write raises: the handler logs the exception and returns.
  A batch whose first cache write raises: the exception is logged and the second item is
  still rendered and cached.
\<close>

theorem run_queued_item_isolates_failures_witness:
  "cache (snd (run_items [PlainRenderer]
      [(1, WorkerQueueItem_init 0 (Some ''/doc/a.md'') ''markdown'' ''# Title''),
       (2, WorkerQueueItem_init 0 (Some ''/doc/b.txt'') ''plain'' ''hi'')]
      (RendererWorker_init Map.empty []))) 2
   = Some \<lparr>entry_filename = ''b.txt'', entry_dirname = ''/doc'', entry_html_part = ''<pre>hi</pre>''\<rparr>
   \<and> run_queued_item_with (refusing_set_entry 1) [PlainRenderer] 1
        (WorkerQueueItem_init 0 (Some ''/doc/b.txt'') ''plain'' ''hi'')
        (RendererWorker_init Map.empty [])
     = (Inr (), RendererWorker_init Map.empty [LogException [] (OtherError ''cache write refused'')])
   \<and> snd (run_items_with (refusing_set_entry 1) [PlainRenderer]
        [(1, WorkerQueueItem_init 0 (Some ''/doc/b.txt'') ''plain'' ''hi''),
         (2, WorkerQueueItem_init 0 (Some ''/doc/b.txt'') ''plain'' ''hi'')]
        (RendererWorker_init Map.empty []))
     = RendererWorker_init
         [2 \<mapsto> \<lparr>entry_filename = ''b.txt'', entry_dirname = ''/doc'',
                 entry_html_part = ''<pre>hi</pre>''\<rparr>]
         [LogException [] (OtherError ''cache write refused'')]"
proof -
  let ?a = "WorkerQueueItem_init 0 (Some ''/doc/a.md'') ''markdown'' ''# Title''"
  let ?b = "WorkerQueueItem_init 0 (Some ''/doc/b.txt'') ''plain'' ''hi''"
  let ?s = "RendererWorker_init Map.empty []"
  let ?s' = "RendererWorker_init Map.empty [LogException [] (OtherError ''cache write refused'')]"
  let ?op = "refusing_set_entry 1"
  let ?entry = "\<lparr>entry_filename = ''b.txt'', entry_dirname = ''/doc'',
                  entry_html_part = ''<pre>hi</pre>''\<rparr>"
  have d: "dispatch [PlainRenderer] ?b lg = (Inr ''<pre>hi</pre>'', lg)" for lg
    by (simp add: dispatch_def WorkerQueueItem_init_def PlainRenderer_def)
  have e: "entry_of ?b ''<pre>hi</pre>'' = ?entry"
    by (simp add: entry_of_def WorkerQueueItem_init_def basename_def dirname_def)
  have d0: "fst (dispatch [PlainRenderer] ?b []) = Inr ''<pre>hi</pre>''"
    by (simp add: d)
  have i: "(2, ?b) \<in> set [(1, ?a), (2, ?b)]" by simp
  have u: "distinct (map fst [(1::int, ?a), (2, ?b)])" by simp
  have "cache (snd (run_items [PlainRenderer] [(1, ?a), (2, ?b)] ?s)) 2 =
          Some (entry_of ?b ''<pre>hi</pre>'')"
    using run_queued_item_isolates_failures
      [of ?op "[PlainRenderer]" 1 ?a ?s "[(1, ?a), (2, ?b)]" 2 ?b "[]" "''<pre>hi</pre>''"]
      i u d0
    by blast
  then have w1: "cache (snd (run_items [PlainRenderer] [(1, ?a), (2, ?b)] ?s)) 2 = Some ?entry"
    by (simp only: e)
  have "run_queued_item_with ?op [PlainRenderer] 1 ?b ?s =
          (Inr (),
           case fst (dispatch [PlainRenderer] ?b (logged ?s)) of
             Inl e \<Rightarrow> ?s\<lparr>logged := snd (dispatch [PlainRenderer] ?b (logged ?s))\<rparr>
           | Inr html \<Rightarrow>
               (case ?op 1 (entry_of ?b html) (cache ?s) of
                  Inr c \<Rightarrow> ?s\<lparr>logged := snd (dispatch [PlainRenderer] ?b (logged ?s)), cache := c\<rparr>
                | Inl NotImplementedError \<Rightarrow>
                    ?s\<lparr>logged := snd (dispatch [PlainRenderer] ?b (logged ?s))\<rparr>
                | Inl (OtherError m) \<Rightarrow>
                    ?s\<lparr>logged := snd (dispatch [PlainRenderer] ?b (logged ?s))
                                  @ [LogException [] (OtherError m)]\<rparr>))"
    using run_queued_item_isolates_failures [of ?op "[PlainRenderer]" 1 ?b ?s] by blast
  then have w2: "run_queued_item_with ?op [PlainRenderer] 1 ?b ?s = (Inr (), ?s')"
    by (simp add: d refusing_set_entry_def RendererWorker_init_def)
  have "run_queued_item_with ?op [PlainRenderer] 2 ?b ?s' =
          (Inr (),
           case fst (dispatch [PlainRenderer] ?b (logged ?s')) of
             Inl e \<Rightarrow> ?s'\<lparr>logged := snd (dispatch [PlainRenderer] ?b (logged ?s'))\<rparr>
           | Inr html \<Rightarrow>
               (case ?op 2 (entry_of ?b html) (cache ?s') of
                  Inr c \<Rightarrow> ?s'\<lparr>logged := snd (dispatch [PlainRenderer] ?b (logged ?s')), cache := c\<rparr>
                | Inl NotImplementedError \<Rightarrow>
                    ?s'\<lparr>logged := snd (dispatch [PlainRenderer] ?b (logged ?s'))\<rparr>
                | Inl (OtherError m) \<Rightarrow>
                    ?s'\<lparr>logged := snd (dispatch [PlainRenderer] ?b (logged ?s'))
                                  @ [LogException [] (OtherError m)]\<rparr>))"
    using run_queued_item_isolates_failures [of ?op "[PlainRenderer]" 2 ?b ?s'] by blast
  then have w3: "run_queued_item_with ?op [PlainRenderer] 2 ?b ?s' =
                   (Inr (), RendererWorker_init [2 \<mapsto> ?entry]
                      [LogException [] (OtherError ''cache write refused'')])"
    by (simp add: d e refusing_set_entry_def set_entry_def RendererWorker_init_def)
  have "run_items_with ?op [PlainRenderer] [(1, ?b), (2, ?b)] ?s =
          (Inr (),
           foldl (\<lambda>s' (b, it). snd (run_queued_item_with ?op [PlainRenderer] b it s')) ?s
             [(1, ?b), (2, ?b)])"
    using run_queued_item_isolates_failures
      [of ?op "[PlainRenderer]" 1 ?b ?s "[(1, ?b), (2, ?b)]"] by blast
  then have w4: "snd (run_items_with ?op [PlainRenderer] [(1, ?b), (2, ?b)] ?s) =
                   RendererWorker_init [2 \<mapsto> ?entry]
                     [LogException [] (OtherError ''cache write refused'')]"
    by (simp add: w2 w3)
  from w1 w2 w4 show ?thesis by blast
qed

lemma filter_key_unique:
  "distinct (map fst xs) \<Longrightarrow> map_of xs k = Some v \<Longrightarrow> filter (\<lambda>p. fst p = k) xs = [(k, v)]"
proof (induction xs)
  case Nil
  then show ?case by simp
next
  case (Cons p xs)
  show ?case
  proof (cases "fst p = k")
    case True
    then have "k \<notin> fst ` set xs" using Cons.prems(1) by auto
    then have "filter (\<lambda>p. fst p = k) xs = []"
      by (auto simp: filter_empty_conv)
    moreover have "p = (k, v)" using True Cons.prems(2) by (cases p) auto
    ultimately show ?thesis by simp
  next
    case False
    then show ?thesis using Cons by auto
  qed
qed

lemma queue_que:
  "que (snd (queue rs buffer_id fullpath lang txt False s)) =
     AList.update buffer_id (WorkerQueueItem_init 0 fullpath lang txt) (que s)"
  by (simp add: queue_def)

lemma submit_all_snoc:
  "submit_all rs (subs @ [(buffer_id, fullpath, lang, txt)]) s =
     snd (queue rs buffer_id fullpath lang txt False (submit_all rs subs s))"
  by (simp add: submit_all_def)

lemma submit_all_stopping:
  "stopping (submit_all rs subs s) = stopping s"
proof (induction subs rule: rev_induct)
  case Nil
  show ?case by (simp add: submit_all_def)
next
  case (snoc x subs)
  obtain b f l t where x: "x = (b, f, l, t)" by (cases x)
  show ?case
    using snoc by (simp add: x submit_all_snoc queue_def)
qed

lemma submit_all_distinct:
  "distinct (map fst (que s)) \<Longrightarrow> distinct (map fst (que (submit_all rs subs s)))"
proof (induction subs rule: rev_induct)
  case Nil
  then show ?case by (simp add: submit_all_def)
next
  case (snoc x subs)
  obtain b f l t where x: "x = (b, f, l, t)" by (cases x)
  show ?case
    using snoc by (simp add: x submit_all_snoc queue_que distinct_update)
qed

lemma submit_all_latest:
  "find (\<lambda>sub. fst sub = buffer_id) (rev subs) = Some (buffer_id, fullpath, lang, txt) \<Longrightarrow>
   map_of (que (submit_all rs subs s)) buffer_id = Some (WorkerQueueItem_init 0 fullpath lang txt)"
proof (induction subs rule: rev_induct)
  case Nil
  then show ?case by simp
next
  case (snoc x subs)
  obtain b f l t where x: "x = (b, f, l, t)" by (cases x)
  show ?case
  proof (cases "b = buffer_id")
    case True
    then have "(f, l, t) = (fullpath, lang, txt)" using snoc.prems x by simp
    then show ?thesis
      using True by (simp add: x submit_all_snoc queue_que update_conv')
  next
    case False
    then have "find (\<lambda>sub. fst sub = buffer_id) (rev subs) = Some (buffer_id, fullpath, lang, txt)"
      using snoc.prems x by simp
    then have "map_of (que (submit_all rs subs s)) buffer_id = Some (WorkerQueueItem_init 0 fullpath lang txt)"
      by (rule snoc.IH)
    then show ?thesis
      using False by (simp add: x submit_all_snoc queue_que update_conv')
  qed
qed

lemma run_process_all:
  "run rs (replicate (length items) ProcessNext) (PROCESSING items, s) =
     (PROCESSING [], snd (run_items rs items s))"
proof (induction items arbitrary: s)
  case Nil
  show ?case by (simp add: run_def)
next
  case (Cons p items)
  obtain b item where p: "p = (b, item)" by (cases p)
  obtain s' where r: "run_queued_item rs b item s = (Inr (), s')"
    using run_queued_item_returns [of rs b item s]
    by (cases "run_queued_item rs b item s") auto
  show ?case
    using Cons.IH [of s'] by (simp add: run_def p r)
qed

text \<open>
  C1. After any sequence of non-immediate submissions (hence after each of its prefixes)
  the pending dict has at most one entry for each \<open>buffer_id\<close>. The entry for a
  \<open>buffer_id\<close> that was submitted carries the \<open>fullpath\<close>, \<open>lang\<close> and \<open>text\<close> of its
  latest submission, an absent or empty \<open>fullpath\<close> being held as \<open>'untitled'\<close>. The next
  wake-up drains the dict into a batch that holds exactly that one item for the
  \<open>buffer_id\<close>, each item of the batch being processed once.
\<close>

theorem queue_coalesces:
  assumes "distinct (map fst (que s))"
    and "find (\<lambda>sub. fst sub = buffer_id) (rev subs) = Some (buffer_id, fullpath, lang, txt)"
    and "\<not> stopping s"
  shows "distinct (map fst (que (submit_all rs subs s)))
         \<and> filter (\<lambda>p. fst p = buffer_id) (que (submit_all rs subs s)) =
             [(buffer_id,
               \<lparr>item_timestamp = 0,
                item_fullpath = (case fullpath of
                                   None \<Rightarrow> ''untitled''
                                 | Some p \<Rightarrow> if p = [] then ''untitled'' else p),
                item_lang = lang,
                item_text = txt\<rparr>)]
         \<and> (\<exists>items s'. run_step rs WakeUp (WAITING, submit_all rs subs s) = (PROCESSING items, s')
               \<and> que s' = []
               \<and> filter (\<lambda>p. fst p = buffer_id) items =
                   [(buffer_id,
                     \<lparr>item_timestamp = 0,
                      item_fullpath = (case fullpath of
                                         None \<Rightarrow> ''untitled''
                                       | Some p \<Rightarrow> if p = [] then ''untitled'' else p),
                      item_lang = lang,
                      item_text = txt\<rparr>)]
               \<and> run rs (replicate (length items) ProcessNext) (PROCESSING items, s') =
                   (PROCESSING [], snd (run_items rs items s')))"
proof -
  let ?s = "submit_all rs subs s"
  let ?item = "\<lparr>item_timestamp = 0,
                 item_fullpath = (case fullpath of
                                    None \<Rightarrow> ''untitled''
                                  | Some p \<Rightarrow> if p = [] then ''untitled'' else p),
                 item_lang = lang,
                 item_text = txt\<rparr>"
  have d: "distinct (map fst (que ?s))"
    using assms(1) by (rule submit_all_distinct)
  have "map_of (que ?s) buffer_id = Some (WorkerQueueItem_init 0 fullpath lang txt)"
    using assms(2) by (rule submit_all_latest)
  then have m: "map_of (que ?s) buffer_id = Some ?item"
    by (simp only: WorkerQueueItem_init_def)
  have f: "filter (\<lambda>p. fst p = buffer_id) (que ?s) = [(buffer_id, ?item)]"
    using d m by (rule filter_key_unique)
  have ne: "que ?s \<noteq> []" using f by auto
  have st: "\<not> stopping ?s"
    using assms(3) by (simp add: submit_all_stopping)
  have w: "run_step rs WakeUp (WAITING, ?s) = (PROCESSING (que ?s), ?s\<lparr>que := []\<rparr>)"
    using ne st by simp
  have "\<exists>items s'. run_step rs WakeUp (WAITING, ?s) = (PROCESSING items, s')
          \<and> que s' = []
          \<and> filter (\<lambda>p. fst p = buffer_id) items = [(buffer_id, ?item)]
          \<and> run rs (replicate (length items) ProcessNext) (PROCESSING items, s') =
              (PROCESSING [], snd (run_items rs items s'))"
    using f w run_process_all [of rs "que ?s" "?s\<lparr>que := []\<rparr>"] by simp
  with d f show ?thesis by blast
qed

text \<open>
  Two submissions for buffer 7 around one for buffer 8, which has no file: the later
  path and text of buffer 7 survive, and buffer 8 is held as \<open>'untitled'\<close>.
\<close>

theorem queue_coalesces_witness:
  "filter (\<lambda>p. fst p = 7)
     (que (submit_all [PlainRenderer]
        [(7, Some ''/d/a.txt'', ''plain'', ''v1''), (8, None, ''markdown'', ''x''),
         (7, Some ''/d/b.txt'', ''plain'', ''v2'')]
        (RendererWorker_init Map.empty []))) =
   [(7, \<lparr>item_timestamp = 0, item_fullpath = ''/d/b.txt'', item_lang = ''plain'',
          item_text = ''v2''\<rparr>)]
   \<and> filter (\<lambda>p. fst p = 8)
     (que (submit_all [PlainRenderer]
        [(7, Some ''/d/a.txt'', ''plain'', ''v1''), (8, None, ''markdown'', ''x''),
         (7, Some ''/d/b.txt'', ''plain'', ''v2'')]
        (RendererWorker_init Map.empty []))) =
   [(8, \<lparr>item_timestamp = 0, item_fullpath = ''untitled'', item_lang = ''markdown'',
          item_text = ''x''\<rparr>)]"
proof -
  let ?subs = "[(7::int, Some ''/d/a.txt'', ''plain'', ''v1''), (8, None, ''markdown'', ''x''),
                (7, Some ''/d/b.txt'', ''plain'', ''v2'')]"
  let ?s = "RendererWorker_init Map.empty []"
  have a: "distinct (map fst (que ?s))"
    by (simp add: RendererWorker_init_def)
  have b: "find (\<lambda>sub. fst sub = 7) (rev ?subs) = Some (7, Some ''/d/b.txt'', ''plain'', ''v2'')"
    by simp
  have b': "find (\<lambda>sub. fst sub = 8) (rev ?subs) = Some (8, None, ''markdown'', ''x'')"
    by simp
  have c: "\<not> stopping ?s"
    by (simp add: RendererWorker_init_def)
  have "filter (\<lambda>p. fst p = 7) (que (submit_all [PlainRenderer] ?subs ?s)) =
          [(7, \<lparr>item_timestamp = 0,
                 item_fullpath = (case Some ''/d/b.txt'' of
                                    None \<Rightarrow> ''untitled''
                                  | Some p \<Rightarrow> if p = [] then ''untitled'' else p),
                 item_lang = ''plain'', item_text = ''v2''\<rparr>)]"
    using queue_coalesces [OF a b c, of "[PlainRenderer]"] by blast
  moreover have "filter (\<lambda>p. fst p = 8) (que (submit_all [PlainRenderer] ?subs ?s)) =
          [(8, \<lparr>item_timestamp = 0,
                 item_fullpath = (case None of
                                    None \<Rightarrow> ''untitled''
                                  | Some p \<Rightarrow> if p = [] then ''untitled'' else p),
                 item_lang = ''markdown'', item_text = ''x''\<rparr>)]"
    using queue_coalesces [OF a b' c, of "[PlainRenderer]"] by blast
  ultimately show ?thesis by simp
qed

section \<open>Properties of \<open>queue_view\<close>\<close>

text \<open>
  C7. A call \<open>queue_view(view, only_exists=True)\<close> on a view whose buffer has no cache
  entry and whose setting \<open>omnimarkup_enabled\<close> is not true returns without touching the
  settings or the worker. Every other call sets \<open>omnimarkup_enabled\<close> to \<open>True\<close> and hands
  the buffer id, the file name, the detected language and the whole text of the view to
  \<open>queue\<close>.
\<close>

theorem queue_view_behaviour:
  "queue_view rs view only_exists immediate s =
     (if only_exists \<and> cache s (view_buffer_id view) = None
          \<and> \<not> truthy (settings_get (view_settings view) ''omnimarkup_enabled'' (SBool False))
      then (Inr (), view, s)
      else
        (fst (queue rs (view_buffer_id view) (view_file_name view)
                (get_lang_by_scope_name (view_scope_name view 0)) (view_chars view) immediate s),
         view\<lparr>view_settings := (view_settings view)(''omnimarkup_enabled'' \<mapsto> SBool True)\<rparr>,
         snd (queue rs (view_buffer_id view) (view_file_name view)
                (get_lang_by_scope_name (view_scope_name view 0)) (view_chars view) immediate s)))"
  by (simp add: queue_view_def exists_entry_def view_size_def view_substr_def Let_def
        split: prod.splits)

section \<open>Properties of the worker loop\<close>

lemma queue_stopping:
  "stopping (snd (queue rs buffer_id fullpath lang txt immediate s)) = stopping s"
  by (simp add: queue_def Let_def run_queued_item_stopping)

lemma run_step_not_raised:
  assumes "\<forall>e. ph \<noteq> RAISED e"
  shows "fst (run_step rs ev (ph, s)) \<noteq> RAISED e"
proof (cases ev)
  case WakeUp
  then show ?thesis using assms by (cases ph) auto
next
  case ProcessNext
  show ?thesis
  proof (cases ph)
    case (PROCESSING items)
    show ?thesis
    proof (cases items)
      case Nil
      then show ?thesis using PROCESSING ProcessNext by simp
    next
      case (Cons p rest)
      obtain b item where p: "p = (b, item)" by (cases p)
      obtain s' where r: "run_queued_item rs b item s = (Inr (), s')"
        using run_queued_item_returns [of rs b item s]
        by (cases "run_queued_item rs b item s") auto
      show ?thesis using PROCESSING ProcessNext Cons p r by simp
    qed
  qed (use assms ProcessNext in auto)
next
  case (CallQueue b f l t i)
  then show ?thesis using assms by simp
next
  case CallStop
  then show ?thesis using assms by simp
qed

lemma run_step_terminated:
  assumes "\<forall>e. ph \<noteq> RAISED e"
  shows "fst (run_step rs ev (ph, s)) = TERMINATED \<longleftrightarrow>
           ph = TERMINATED \<or> (ev = WakeUp \<and> ph = WAITING \<and> stopping s)"
proof (cases ev)
  case WakeUp
  then show ?thesis using assms by (cases ph) auto
next
  case ProcessNext
  show ?thesis
  proof (cases ph)
    case (PROCESSING items)
    show ?thesis
    proof (cases items)
      case Nil
      then show ?thesis using PROCESSING ProcessNext by simp
    next
      case (Cons p rest)
      obtain b item where p: "p = (b, item)" by (cases p)
      obtain s' where r: "run_queued_item rs b item s = (Inr (), s')"
        using run_queued_item_returns [of rs b item s]
        by (cases "run_queued_item rs b item s") auto
      show ?thesis using PROCESSING ProcessNext Cons p r by simp
    qed
  qed (use assms ProcessNext in auto)
next
  case (CallQueue b f l t i)
  then show ?thesis by simp
next
  case CallStop
  then show ?thesis by simp
qed

lemma run_step_stopping:
  "stopping (snd (run_step rs ev (ph, s))) \<longleftrightarrow> stopping s \<or> ev = CallStop"
proof (cases ev)
  case WakeUp
  then show ?thesis by (cases ph) auto
next
  case ProcessNext
  show ?thesis
  proof (cases ph)
    case (PROCESSING items)
    show ?thesis
    proof (cases items)
      case Nil
      then show ?thesis using PROCESSING ProcessNext by simp
    next
      case (Cons p rest)
      obtain b item where p: "p = (b, item)" by (cases p)
      obtain s' where r: "run_queued_item rs b item s = (Inr (), s')"
        using run_queued_item_returns [of rs b item s]
        by (cases "run_queued_item rs b item s") auto
      have "stopping s' = stopping s"
        using run_queued_item_stopping [of rs b item s] r by simp
      then show ?thesis using PROCESSING ProcessNext Cons p r by simp
    qed
  qed (use ProcessNext in auto)
next
  case (CallQueue b f l t i)
  then show ?thesis by (simp add: queue_stopping)
next
  case CallStop
  then show ?thesis by simp
qed

lemma run_snoc: "run rs (evs @ [ev]) c = run_step rs ev (run rs evs c)"
  by (simp add: run_def)

lemma run_not_raised:
  "\<forall>e. ph \<noteq> RAISED e \<Longrightarrow> fst (run rs evs (ph, s)) \<noteq> RAISED e"
proof (induction evs arbitrary: e rule: rev_induct)
  case Nil
  then show ?case by (simp add: run_def)
next
  case (snoc ev evs)
  obtain ph' s' where c: "run rs evs (ph, s) = (ph', s')"
    by (cases "run rs evs (ph, s)")
  have "\<forall>e. ph' \<noteq> RAISED e"
    using snoc.IH [OF snoc.prems] c by simp
  then show ?case
    using run_step_not_raised [of ph' rs ev s' e] by (simp add: run_snoc c)
qed

lemma run_stopping:
  "stopping (snd (run rs evs (ph, s))) \<longleftrightarrow> stopping s \<or> CallStop \<in> set evs"
proof (induction evs rule: rev_induct)
  case Nil
  show ?case by (simp add: run_def)
next
  case (snoc ev evs)
  obtain ph' s' where c: "run rs evs (ph, s) = (ph', s')"
    by (cases "run rs evs (ph, s)")
  show ?case
    using snoc run_step_stopping [of rs ev ph' s'] by (auto simp: run_snoc c)
qed

lemma run_terminated:
  assumes "\<forall>e. ph \<noteq> RAISED e" and "ph \<noteq> TERMINATED" and "\<not> stopping s"
  shows "fst (run rs evs (ph, s)) = TERMINATED \<Longrightarrow>
         \<exists>pre post. evs = pre @ WakeUp # post \<and> CallStop \<in> set pre
            \<and> fst (run rs pre (ph, s)) = WAITING"
proof (induction evs rule: rev_induct)
  case Nil
  then show ?case using assms(2) by (simp add: run_def)
next
  case (snoc ev evs)
  obtain ph' s' where c: "run rs evs (ph, s) = (ph', s')"
    by (cases "run rs evs (ph, s)")
  have nr: "\<forall>e. ph' \<noteq> RAISED e"
    using run_not_raised [OF assms(1), of rs evs s] c by simp
  have "fst (run_step rs ev (ph', s')) = TERMINATED"
    using snoc.prems by (simp add: run_snoc c)
  then consider "ph' = TERMINATED" | "ev = WakeUp" "ph' = WAITING" "stopping s'"
    using run_step_terminated [OF nr, of rs ev s'] by auto
  then show ?case
  proof cases
    case 1
    then obtain pre post where "evs = pre @ WakeUp # post" "CallStop \<in> set pre"
        "fst (run rs pre (ph, s)) = WAITING"
      using snoc.IH c by auto
    then have "evs @ [ev] = pre @ WakeUp # (post @ [ev])" by simp
    then show ?thesis
      using \<open>CallStop \<in> set pre\<close> \<open>fst (run rs pre (ph, s)) = WAITING\<close> by blast
  next
    case 2
    have "CallStop \<in> set evs"
      using run_stopping [of rs evs ph s] c 2(3) assms(3) by simp
    then show ?thesis
      using 2(1,2) c by auto
  qed
qed

text \<open>
  C9. From any place of the loop the worker thread is not unwound by an exception, and a
  step takes it to the terminated place only from \<open>wait()\<close>, on a wake-up that finds the
  stop flag set; the flag is set by \<open>stop()\<close> and by nothing else. A worker started in
  \<open>wait()\<close> with the flag off is therefore never unwound, and is terminated only after a
  wake-up that followed a call of \<open>stop()\<close>.
\<close>

theorem run_terminates_only_by_stop:
  assumes "\<forall>e. ph \<noteq> RAISED e"
  shows "fst (run_step rs ev (ph, s)) \<noteq> RAISED e
         \<and> (fst (run_step rs ev (ph, s)) = TERMINATED \<longleftrightarrow>
              ph = TERMINATED \<or> (ev = WakeUp \<and> ph = WAITING \<and> stopping s))
         \<and> (stopping (snd (run_step rs ev (ph, s))) \<longleftrightarrow> stopping s \<or> ev = CallStop)
         \<and> fst (run rs evs (WAITING, RendererWorker_init c lg)) \<noteq> RAISED e
         \<and> (fst (run rs evs (WAITING, RendererWorker_init c lg)) = TERMINATED \<longrightarrow>
              (\<exists>pre post. evs = pre @ WakeUp # post \<and> CallStop \<in> set pre
                 \<and> fst (run rs pre (WAITING, RendererWorker_init c lg)) = WAITING))"
proof -
  have w: "\<forall>e. WAITING \<noteq> RAISED e" by simp
  have n: "\<not> stopping (RendererWorker_init c lg)"
    by (simp add: RendererWorker_init_def)
  have "fst (run rs evs (WAITING, RendererWorker_init c lg)) = TERMINATED \<longrightarrow>
          (\<exists>pre post. evs = pre @ WakeUp # post \<and> CallStop \<in> set pre
             \<and> fst (run rs pre (WAITING, RendererWorker_init c lg)) = WAITING)"
    using run_terminated [OF w _ n, of rs evs] by blast
  then show ?thesis
    using run_step_not_raised [OF assms, of rs ev s e] run_step_terminated [OF assms, of rs ev s]
      run_step_stopping [of rs ev ph s] run_not_raised [OF w, of rs evs "RendererWorker_init c lg" e]
    by blast
qed

text \<open>
  A submission, then \<open>stop()\<close>, then the wake-up: the worker terminates and has written
  nothing to the cache.
\<close>

theorem run_terminates_only_by_stop_witness:
  "fst (run [PlainRenderer]
          [CallQueue 1 (Some ''a.md'') ''markdown'' ''# Title'' False, CallStop, WakeUp]
          (WAITING, RendererWorker_init Map.empty [])) = TERMINATED
   \<and> (\<exists>pre post.
         [CallQueue 1 (Some ''a.md'') ''markdown'' ''# Title'' False, CallStop, WakeUp] =
           pre @ WakeUp # post \<and> CallStop \<in> set pre)
   \<and> fst (run_step [PlainRenderer] WakeUp (WAITING, RendererWorker_init Map.empty [])) \<noteq> TERMINATED"
proof -
  let ?evs = "[CallQueue 1 (Some ''a.md'') ''markdown'' ''# Title'' False, CallStop, WakeUp]"
  let ?c = "(WAITING, RendererWorker_init Map.empty [])"
  have t: "fst (run [PlainRenderer] ?evs ?c) = TERMINATED"
    by (simp add: run_def queue_def RendererWorker_init_def)
  have a: "\<forall>e. WAITING \<noteq> RAISED e" by simp
  have n: "\<not> stopping (RendererWorker_init Map.empty [])"
    by (simp add: RendererWorker_init_def)
  show ?thesis
    using run_terminates_only_by_stop
      [OF a, of "[PlainRenderer]" WakeUp "RendererWorker_init Map.empty []" _ ?evs Map.empty "[]"] t n
    by blast
qed

section \<open>Properties of language detection\<close>

lemma lookahead_spaces_iff:
  "lookahead_spaces rest \<longleftrightarrow> rest \<noteq> [] \<and> is_space (hd rest)"
  by (cases rest) (auto simp: lookahead_spaces_def)

lemma find_upt_only_zero:
  assumes "\<forall>pos. pos \<noteq> 0 \<longrightarrow> \<not> P pos"
  shows "find P [0..<Suc n] = (if P 0 then Some 0 else None)"
proof -
  have "[0..<Suc n] = 0 # [Suc 0..<Suc n]"
    by (simp add: upt_conv_Cons)
  moreover have "find P [Suc 0..<Suc n] = None"
    using assms by (auto simp: find_None_iff)
  ultimately show ?thesis by simp
qed

lemma LANG_RE_search_at_start:
  "LANG_RE_search s =
     map_option (\<lambda>(a, b). take (b - a) (drop a s)) (LANG_RE_match_at s 0)"
proof -
  have "\<forall>pos. pos \<noteq> 0 \<longrightarrow> \<not> (LANG_RE_match_at s pos \<noteq> None)"
    by (simp add: LANG_RE_match_at_def)
  then have h: "find (\<lambda>pos. LANG_RE_match_at s pos \<noteq> None) [0..<Suc (length s)] =
                  (if LANG_RE_match_at s 0 \<noteq> None then Some 0 else None)"
    by (rule find_upt_only_zero)
  show ?thesis
  proof (cases "LANG_RE_match_at s 0")
    case None
    then show ?thesis unfolding LANG_RE_search_def h by simp
  next
    case (Some m)
    then show ?thesis unfolding LANG_RE_search_def h by simp
  qed
qed

lemma no_lookahead_inside_run:
  assumes "k < length (takeWhile (\<lambda>c. \<not> is_space c) s)"
  shows "\<not> lookahead_spaces (drop k s)"
proof -
  let ?t = "takeWhile (\<lambda>c. \<not> is_space c) s"
  have len: "k < length s"
    using assms length_takeWhile_le [of "\<lambda>c. \<not> is_space c" s] by simp
  have "?t ! k \<in> set ?t" using assms by simp
  then have "\<not> is_space (?t ! k)" by (auto dest: set_takeWhileD)
  moreover have "?t ! k = s ! k" using assms by (rule takeWhile_nth)
  moreover have "hd (drop k s) = s ! k" using len by (simp add: hd_drop_conv_nth)
  ultimately show ?thesis using len by (simp add: lookahead_spaces_iff)
qed

lemma lookahead_after_run:
  "lookahead_spaces (drop (length (takeWhile (\<lambda>c. \<not> is_space c) s)) s) \<longleftrightarrow>
     dropWhile (\<lambda>c. \<not> is_space c) s \<noteq> []"
proof -
  have d: "drop (length (takeWhile (\<lambda>c. \<not> is_space c) s)) s = dropWhile (\<lambda>c. \<not> is_space c) s"
    by (simp add: dropWhile_eq_drop)
  have "is_space (hd (dropWhile (\<lambda>c. \<not> is_space c) s))"
    if "dropWhile (\<lambda>c. \<not> is_space c) s \<noteq> []"
    using that hd_dropWhile [of "\<lambda>c. \<not> is_space c" s] by simp
  then show ?thesis
    by (auto simp: d lookahead_spaces_iff)
qed

lemma LANG_RE_match_at_start:
  "LANG_RE_match_at s 0 =
     (if takeWhile (\<lambda>c. \<not> is_space c) s \<noteq> [] \<and> dropWhile (\<lambda>c. \<not> is_space c) s \<noteq> []
      then Some (0, length (takeWhile (\<lambda>c. \<not> is_space c) s)) else None)"
proof -
  let ?n = "length (takeWhile (\<lambda>c. \<not> is_space c) s)"
  let ?P = "\<lambda>k. lookahead_spaces (drop k s)"
  have m: "LANG_RE_match_at s 0 =
             (case find ?P (rev [Suc 0..<Suc ?n]) of None \<Rightarrow> None | Some k \<Rightarrow> Some (0, k))"
    by (simp add: LANG_RE_match_at_def Let_def del: upt_Suc split: option.splits)
  show ?thesis
  proof (cases "?n = 0")
    case True
    then have "find ?P (rev [Suc 0..<Suc ?n]) = None" by simp
    then show ?thesis using True by (simp only: m) simp
  next
    case False
    then have "Suc 0 \<le> ?n" by (simp add: Suc_le_eq)
    then have r: "rev [Suc 0..<Suc ?n] = ?n # rev [Suc 0..<?n]" by simp
    have ne: "takeWhile (\<lambda>c. \<not> is_space c) s \<noteq> []" using False by simp
    show ?thesis
    proof (cases "dropWhile (\<lambda>c. \<not> is_space c) s = []")
      case True
      then have "\<not> ?P ?n" using lookahead_after_run [of s] by simp
      moreover have "\<forall>k \<in> set (rev [Suc 0..<?n]). \<not> ?P k"
        using no_lookahead_inside_run [of _ s] by simp
      ultimately have "find ?P (rev [Suc 0..<Suc ?n]) = None"
        unfolding r by (simp add: find_None_iff)
      then show ?thesis using True by (simp only: m) simp
    next
      case nonempty: False
      then have "?P ?n" using lookahead_after_run [of s] by simp
      then have "find ?P (rev [Suc 0..<Suc ?n]) = Some ?n"
        unfolding r by simp
      then show ?thesis using nonempty ne by (simp only: m) simp
    qed
  qed
qed

lemma get_lang_by_scope_name_eq:
  "get_lang_by_scope_name s =
     (if takeWhile (\<lambda>c. \<not> is_space c) s \<noteq> [] \<and> dropWhile (\<lambda>c. \<not> is_space c) s \<noteq> []
      then lower (takeWhile (\<lambda>c. \<not> is_space c) s) else [])"
  by (simp add: get_lang_by_scope_name_def LANG_RE_search_at_start LANG_RE_match_at_start
        takeWhile_eq_take [symmetric])

text \<open>
  C10 (as the code has it). The pattern is anchored: the language is the lowercased run
  of non-whitespace characters that begins at the first character of the scope name, when
  that run is not empty and a whitespace character follows it, and the empty string
  otherwise. A single token without trailing whitespace gives the empty string, and so
  does a scope name that begins with whitespace; for a scope name that does not begin
  with whitespace this is the value C10 words.
\<close>

theorem get_lang_by_scope_name_anchored:
  "get_lang_by_scope_name s =
     (if takeWhile (\<lambda>c. \<not> is_space c) s \<noteq> [] \<and> dropWhile (\<lambda>c. \<not> is_space c) s \<noteq> []
      then lower (takeWhile (\<lambda>c. \<not> is_space c) s) else [])
   \<and> get_lang_by_scope_name s = (if s \<noteq> [] \<and> is_space (hd s) then [] else claimed_lang s)"
proof -
  have "get_lang_by_scope_name s = (if s \<noteq> [] \<and> is_space (hd s) then [] else claimed_lang s)"
  proof (cases s)
    case Nil
    then show ?thesis
      by (simp add: get_lang_by_scope_name_eq claimed_lang_def first_run_def)
  next
    case (Cons c cs)
    then show ?thesis
      by (simp add: get_lang_by_scope_name_eq claimed_lang_def first_run_def)
  qed
  then show ?thesis
    using get_lang_by_scope_name_eq [of s] by simp
qed

text \<open>
  The theorem at a scope name as the editor gives it, at a single token and at a scope
  name with a leading blank.
\<close>

theorem get_lang_by_scope_name_anchored_witness:
  "get_lang_by_scope_name ''text.html.Markdown meta.x '' = ''text.html.markdown''
   \<and> get_lang_by_scope_name ''text.html.Markdown'' = []
   \<and> get_lang_by_scope_name '' text.html.Markdown '' = []"
proof -
  have t1: "takeWhile (\<lambda>c. \<not> is_space c) ''text.html.Markdown meta.x '' = ''text.html.Markdown''"
    by (simp add: is_space_def)
  have d1: "dropWhile (\<lambda>c. \<not> is_space c) ''text.html.Markdown meta.x '' \<noteq> []"
    by (simp add: is_space_def)
  have l1: "lower ''text.html.Markdown'' = ''text.html.markdown''"
    by code_simp
  have d2: "dropWhile (\<lambda>c. \<not> is_space c) ''text.html.Markdown'' = []"
    by (simp add: is_space_def)
  have t3: "takeWhile (\<lambda>c. \<not> is_space c) '' text.html.Markdown '' = []"
    by (simp add: is_space_def)
  have "get_lang_by_scope_name ''text.html.Markdown meta.x '' = ''text.html.markdown''"
    using get_lang_by_scope_name_anchored [of "''text.html.Markdown meta.x ''"] d1
    by (simp only: t1 l1) simp
  moreover have "get_lang_by_scope_name ''text.html.Markdown'' = []"
    using get_lang_by_scope_name_anchored [of "''text.html.Markdown''"]
    by (simp only: d2) simp
  moreover have "get_lang_by_scope_name '' text.html.Markdown '' = []"
    using get_lang_by_scope_name_anchored [of "'' text.html.Markdown ''"]
    by (simp only: t3) simp
  ultimately show ?thesis by simp
qed

text \<open>
  C10 as stated fails on a scope name that begins with whitespace: its first maximal run
  of non-whitespace characters is followed by whitespace, and the code returns the empty
  string.
\<close>

theorem get_lang_by_scope_name_leading_space_counterexample:
  "first_run '' foo bar'' = ''foo''
   \<and> claimed_lang '' foo bar'' = ''foo''
   \<and> get_lang_by_scope_name '' foo bar'' = []
   \<and> get_lang_by_scope_name '' foo bar'' \<noteq> claimed_lang '' foo bar''"
  by code_simp

section \<open>Properties of filename normalization\<close>

lemma with_None_answer_simps:
  "is_enabled (with_None_answer a renderer) (Some f) lang = is_enabled renderer (Some f) lang"
  "render (with_None_answer a renderer) = render renderer"
  "rendering_failed (with_None_answer a renderer) e = rendering_failed renderer e"
  by (simp_all add: with_None_answer_def rendering_failed_def)

lemma is_renderers_enabled_loop_None_free:
  "is_renderers_enabled_loop (map (with_None_answer a) rs) filename lang =
     is_renderers_enabled_loop rs filename lang"
  by (induction rs) (simp_all add: with_None_answer_simps split: sum.splits)

lemma render_text_None_free:
  "render_text (map (with_None_answer a) rs) (Some f) lang txt lg =
     render_text rs (Some f) lang txt lg"
  by (induction rs arbitrary: lg) (simp_all add: with_None_answer_simps split: sum.splits)

lemma basename_untitled: "basename ''untitled'' = ''untitled''"
  by (simp add: basename_def)

text \<open>
  C8 (as the code has it). \<open>is_renderers_enabled\<close> turns an absent filename into the empty
  string before any \<open>is_enabled\<close> call, so its result (and that of
  \<open>has_renderer_enabled_in_view\<close>, which calls it) does not depend on what a renderer
  answers at \<open>None\<close>. \<open>render_text\<close> passes its filename on as it is; on the worker's path
  that filename is never \<open>None\<close>, because \<open>WorkerQueueItem\<close> replaces an absent
  \<open>fullpath\<close> by \<open>'untitled'\<close> and \<open>_run_queued_item\<close> passes its base name: there an
  absent filename reaches \<open>is_enabled\<close> as \<open>'untitled'\<close>.
\<close>

theorem absent_filename_normalization:
  "is_renderers_enabled rs None lang = is_renderers_enabled rs (Some []) lang
   \<and> is_renderers_enabled (map (with_None_answer a) rs) filename lang =
       is_renderers_enabled rs filename lang
   \<and> has_renderer_enabled_in_view (map (with_None_answer a) rs) view =
       has_renderer_enabled_in_view rs view
   \<and> dispatch rs (WorkerQueueItem_init 0 None lang txt) lg =
       render_text rs (Some ''untitled'') lang txt lg
   \<and> dispatch (map (with_None_answer a) rs) item lg = dispatch rs item lg
   \<and> run_queued_item (map (with_None_answer a) rs) buffer_id item s =
       run_queued_item rs buffer_id item s"
proof -
  have d: "dispatch (map (with_None_answer a) rs) item lg = dispatch rs item lg" for lg
    by (simp add: dispatch_def render_text_None_free)
  have "run_queued_item (map (with_None_answer a) rs) buffer_id item s =
          run_queued_item rs buffer_id item s"
    by (simp only: run_queued_item_eq d)
  then show ?thesis
    using d [of lg]
    by (simp add: is_renderers_enabled_def has_renderer_enabled_in_view_def
          is_renderers_enabled_loop_None_free dispatch_def WorkerQueueItem_init_def
          basename_untitled)
qed

text \<open>
  C8 as stated fails for the lookup of \<open>render_text\<close>. Called with \<open>None\<close> it hands
  \<open>None\<close> to \<open>is_enabled\<close>, not the empty string; and for an unsaved buffer the worker
  hands it \<open>'untitled'\<close>, so that a renderer enabled for the empty name passes the
  enabled check and is not used by the dispatch.
\<close>

theorem render_text_filename_counterexample:
  "fst (render_text [NoneRenderer] None ''plain'' ''hi'' []) = Inr ''hi''
   \<and> fst (render_text [NoneRenderer] (Some []) ''plain'' ''hi'' []) = Inl NotImplementedError
   \<and> fst (render_text [EmptyNameRenderer] None ''plain'' ''hi'' []) = Inl NotImplementedError
   \<and> is_renderers_enabled [EmptyNameRenderer] None ''plain'' = Inr True
   \<and> fst (dispatch [EmptyNameRenderer] (WorkerQueueItem_init 0 None ''plain'' ''hi'') [])
       = Inl NotImplementedError"
  by (simp add: NoneRenderer_def EmptyNameRenderer_def is_renderers_enabled_def dispatch_def
        WorkerQueueItem_init_def basename_def)

end
